theory Spec2Isabelle
  imports Main
begin

section \<open>The hub-and-spoke orchestrator of LC.py\<close>

text \<open>
  LC.py builds a star graph: a central node \<open>hub\<close> and one spoke node per entry of the
  dictionary \<open>SPECIALISTS\<close>. The hub looks at the list \<open>visited\<close> of the shared state and
  either names the next spoke or, when every specialist has answered, asks the language
  model for a synthesis and routes to \<open>END\<close>. Every spoke asks the language model for one
  message, appends its own name to \<open>visited\<close> and hands control back to the hub.

  The embedding follows the file top to bottom: the state, the table of specialists, the
  hub, the spoke factory, the routing function, the graph and the entry point.
\<close>

subsection \<open>Messages, state and node results\<close>

datatype role = System | Human | AI

datatype message = Message role string

fun content :: "message \<Rightarrow> string" where
  "content (Message r c) = c"

text \<open>
  \<open>AgentState\<close> is a \<open>TypedDict\<close>, so at run time it is a dictionary in which any of the
  three keys may be missing; a missing key is \<open>None\<close>. The key \<open>next\<close> is the field
  \<open>nxt\<close> here.
\<close>

record AgentState =
  messages :: "message list option"
  nxt :: "string option"
  visited :: "string list option"

text \<open>
  A node returns a dictionary holding only the keys it writes: the hub returns
  \<open>{"next": ...}\<close> or \<open>{"messages": ..., "next": ...}\<close>, a spoke returns
  \<open>{"messages": ..., "visited": ...}\<close>.
\<close>

record update =
  u_messages :: "message list option"
  u_next :: "string option"
  u_visited :: "string list option"

text \<open>
  What can go wrong: a subscript \<open>state["k"]\<close> on a missing key, an index into an
  empty list, the language model call raising, and a routing target the graph does not
  know.
\<close>

datatype error = KeyError string | IndexError | GenerationFailure | InvalidRoute string

text \<open>
  What a node does besides returning: the progress line it prints (kept by its kind and
  the specialist it mentions) and each request it sends to the language model.
\<close>

datatype event =
    HubRouting string
  | HubSynthesizing
  | SpokeWorking string
  | LLMInvoke "message list"

text \<open>
  \<open>llm.invoke\<close> is the external service. Its answer to a request may depend on
  everything that happened before, so the model is a function of the log so far and the
  request; \<open>None\<close> stands for the call raising. The call itself is recorded in the log.
\<close>

type_synonym llm = "event list \<Rightarrow> message list \<Rightarrow> message option"

definition invoke :: "llm \<Rightarrow> message list \<Rightarrow> event list \<Rightarrow> (error + message) \<times> event list" where
  "invoke llm req tr =
     (case llm tr req of
        None \<Rightarrow> (Inl GenerationFailure, tr @ [LLMInvoke req])
      | Some response \<Rightarrow> (Inr response, tr @ [LLMInvoke req]))"

subsection \<open>The specialists\<close>

text \<open>
  \<open>SPECIALISTS\<close> is a dictionary literal; iteration follows insertion order, so it is an
  association list of name and system prompt. The functions below take the table as a
  parameter \<open>roster\<close>; \<open>SPECIALISTS\<close> is the table the file defines.
\<close>

type_synonym roster = "(string \<times> string) list"

definition SPECIALISTS :: roster where
  "SPECIALISTS =
     [(''researcher'',
       ''You are a knowledgeable researcher. '' @
       ''Provide relevant facts, data, and background on the topic.''),
      (''analyst'',
       ''You are a data analyst. '' @
       ''Examine the information gathered so far and identify key patterns, '' @
       ''trends, and deeper implications.''),
      (''critic'',
       ''You are a critical thinker. '' @
       ''Identify weaknesses, counterarguments, risks, or missing perspectives '' @
       ''in the discussion so far.''),
      (''writer'',
       ''You are a skilled writer. '' @
       ''Synthesize all previous contributions into a clear, concise, '' @
       ''well-structured response.'')]"

definition END :: string where
  "END = ''__end__''"

subsection \<open>The hub\<close>

text \<open>\<open>state.get("visited", [])\<close>.\<close>

definition get_visited :: "AgentState \<Rightarrow> string list" where
  "get_visited state = (case visited state of None \<Rightarrow> [] | Some v \<Rightarrow> v)"

text \<open>
  The loop \<open>for name in SPECIALISTS: if name not in visited: return ...\<close>, returning the
  name at which the loop leaves the function, or \<open>None\<close> when the loop runs to its end.
\<close>

fun hub_scan :: "string list \<Rightarrow> string list \<Rightarrow> string option" where
  "hub_scan [] vis = None"
| "hub_scan (name # rest) vis = (if name \<notin> set vis then Some name else hub_scan rest vis)"

definition orchestrator_prompt :: string where
  "orchestrator_prompt =
     ''You are an orchestrator. All specialist agents have shared '' @
     ''their perspectives. Synthesize everything into one final, '' @
     ''well-structured answer.''"

definition hub :: "roster \<Rightarrow> llm \<Rightarrow> AgentState \<Rightarrow> event list \<Rightarrow> (error + update) \<times> event list" where
  "hub roster llm state tr =
     (let vis = get_visited state in
      case hub_scan (map fst roster) vis of
        Some name \<Rightarrow>
          (Inr \<lparr>u_messages = None, u_next = Some name, u_visited = None\<rparr>,
           tr @ [HubRouting name])
      | None \<Rightarrow>
          (let tr1 = tr @ [HubSynthesizing] in
           case messages state of
             None \<Rightarrow> (Inl (KeyError ''messages''), tr1)
           | Some msgs \<Rightarrow>
               (case invoke llm (Message System orchestrator_prompt # msgs) tr1 of
                  (Inl e, tr2) \<Rightarrow> (Inl e, tr2)
                | (Inr response, tr2) \<Rightarrow>
                    (Inr \<lparr>u_messages = Some [response], u_next = Some END, u_visited = None\<rparr>,
                     tr2))))"

subsection \<open>The spokes\<close>

text \<open>\<open>make_spoke name system_prompt\<close> is the node function \<open>spoke\<close> of one specialist.\<close>

definition make_spoke ::
  "string \<Rightarrow> string \<Rightarrow> llm \<Rightarrow> AgentState \<Rightarrow> event list \<Rightarrow> (error + update) \<times> event list" where
  "make_spoke name system_prompt llm state tr =
     (let tr1 = tr @ [SpokeWorking name] in
      case messages state of
        None \<Rightarrow> (Inl (KeyError ''messages''), tr1)
      | Some msgs \<Rightarrow>
          (case invoke llm (Message System system_prompt # msgs) tr1 of
             (Inl e, tr2) \<Rightarrow> (Inl e, tr2)
           | (Inr response, tr2) \<Rightarrow>
               (Inr \<lparr>u_messages = Some [response], u_next = None,
                     u_visited = Some (get_visited state @ [name])\<rparr>,
                tr2)))"

subsection \<open>Routing and the graph\<close>

definition route_from_hub :: "AgentState \<Rightarrow> error + string" where
  "route_from_hub state = (case nxt state of None \<Rightarrow> Inl (KeyError ''next'') | Some n \<Rightarrow> Inr n)"

text \<open>
  The graph library merges a node's result into the state key by key. The key
  \<open>messages\<close> is annotated with the reducer \<open>add_messages\<close>, under which "each node
  appends its message"; the other two keys are overwritten.
\<close>

definition add_messages :: "message list option \<Rightarrow> message list \<Rightarrow> message list" where
  "add_messages left right = (case left of None \<Rightarrow> [] | Some l \<Rightarrow> l) @ right"

definition apply_update :: "update \<Rightarrow> AgentState \<Rightarrow> AgentState" where
  "apply_update u state =
     \<lparr>messages = (case u_messages u of
                    None \<Rightarrow> messages state
                  | Some new \<Rightarrow> Some (add_messages (messages state) new)),
      nxt = (case u_next u of None \<Rightarrow> nxt state | Some n \<Rightarrow> Some n),
      visited = (case u_visited u of None \<Rightarrow> visited state | Some v \<Rightarrow> Some v)\<rparr>"

text \<open>
  The graph has the node \<open>hub\<close>, one node per specialist and the terminal point
  \<open>END\<close>. Its edges: \<open>START\<close> to the hub; every spoke back to the hub; from the hub, the
  conditional edge that looks \<open>route_from_hub state\<close> up in the table
  \<open>{name: name for name in SPECIALISTS, END: END}\<close>.
\<close>

datatype node = HubNode | SpokeNode string | EndNode

record config =
  at :: node
  st :: AgentState
  lg :: "event list"

definition conditional_edge :: "roster \<Rightarrow> string \<Rightarrow> error + node" where
  "conditional_edge roster target =
     (if target = END then Inr EndNode
      else if target \<in> set (map fst roster) then Inr (SpokeNode target)
      else Inl (InvalidRoute target))"

text \<open>
  One step of the executor runs the node the configuration is at, merges its result and
  follows the outgoing edge. A failing step returns the error together with the
  configuration it failed in: the same node, the state the node was given, and the log
  up to the failure.
\<close>

definition step :: "roster \<Rightarrow> llm \<Rightarrow> config \<Rightarrow> (error \<times> config) + config" where
  "step roster llm c =
     (case at c of
        HubNode \<Rightarrow>
          (case hub roster llm (st c) (lg c) of
             (Inl e, tr) \<Rightarrow> Inl (e, c\<lparr>lg := tr\<rparr>)
           | (Inr u, tr) \<Rightarrow>
               (let state = apply_update u (st c) in
                case route_from_hub state of
                  Inl e \<Rightarrow> Inl (e, c\<lparr>lg := tr\<rparr>)
                | Inr target \<Rightarrow>
                    (case conditional_edge roster target of
                       Inl e \<Rightarrow> Inl (e, c\<lparr>lg := tr\<rparr>)
                     | Inr n \<Rightarrow> Inr \<lparr>at = n, st = state, lg = tr\<rparr>)))
      | SpokeNode name \<Rightarrow>
          (case map_of roster name of
             None \<Rightarrow> Inl (InvalidRoute name, c)
           | Some system_prompt \<Rightarrow>
               (case make_spoke name system_prompt llm (st c) (lg c) of
                  (Inl e, tr) \<Rightarrow> Inl (e, c\<lparr>lg := tr\<rparr>)
                | (Inr u, tr) \<Rightarrow> Inr \<lparr>at = HubNode, st = apply_update u (st c), lg = tr\<rparr>))
      | EndNode \<Rightarrow> Inr c)"

subsection \<open>Running the graph\<close>

text \<open>
  The executor repeats \<open>step\<close> until the configuration is at \<open>END\<close> or a step fails.
  It stops: the specialists not yet in \<open>visited\<close> get fewer with every spoke the hub
  selects, which the measure \<open>weight\<close> counts. The graph library also bounds the number
  of steps of one call by a setting of the caller; that bound is not part of this model.
\<close>

definition pending :: "roster \<Rightarrow> AgentState \<Rightarrow> string list" where
  "pending roster state = filter (\<lambda>n. n \<notin> set (get_visited state)) (map fst roster)"

definition weight :: "roster \<Rightarrow> config \<Rightarrow> nat" where
  "weight roster c =
     (case at c of
        HubNode \<Rightarrow> 2 * length (pending roster (st c)) + 1
      | SpokeNode name \<Rightarrow>
          (if name \<in> set (pending roster (st c))
           then 2 * length (pending roster (st c))
           else 2 * length (pending roster (st c)) + 2)
      | EndNode \<Rightarrow> 0)"

lemma hub_scan_Some: "hub_scan names vis = Some n \<Longrightarrow> n \<in> set names \<and> n \<notin> set vis"
  by (induction names) (auto split: if_splits)

lemma length_filter_append_le:
  "length (filter (\<lambda>x. x \<notin> set (vis @ [n])) names) \<le> length (filter (\<lambda>x. x \<notin> set vis) names)"
  by (induction names) auto

lemma length_filter_append_less:
  "n \<in> set names \<Longrightarrow> n \<notin> set vis \<Longrightarrow>
   length (filter (\<lambda>x. x \<notin> set (vis @ [n])) names) < length (filter (\<lambda>x. x \<notin> set vis) names)"
proof (induction names)
  case Nil then show ?case by simp
next
  case (Cons a names)
  show ?case
  proof (cases "a = n")
    case True
    with Cons.prems length_filter_append_le [of vis n names] show ?thesis by simp
  next
    case False
    with Cons show ?thesis by auto
  qed
qed

lemma get_visited_apply_update:
  "get_visited (apply_update u s) = (case u_visited u of None \<Rightarrow> get_visited s | Some v \<Rightarrow> v)"
  by (simp add: get_visited_def apply_update_def split: option.splits)

lemma hub_Inr:
  assumes "hub roster llm s tr = (Inr u, tr')"
  shows "u_visited u = None \<and>
         (case hub_scan (map fst roster) (get_visited s) of
            Some n \<Rightarrow> u = \<lparr>u_messages = None, u_next = Some n, u_visited = None\<rparr> \<and>
                      tr' = tr @ [HubRouting n]
          | None \<Rightarrow> (\<exists>ms r. messages s = Some ms \<and>
                      llm (tr @ [HubSynthesizing]) (Message System orchestrator_prompt # ms) = Some r \<and>
                      u = \<lparr>u_messages = Some [r], u_next = Some END, u_visited = None\<rparr> \<and>
                      tr' = tr @ [HubSynthesizing, LLMInvoke (Message System orchestrator_prompt # ms)]))"
  using assms
  by (auto simp: hub_def Let_def invoke_def split: option.splits sum.splits prod.splits)

lemma make_spoke_Inr:
  assumes "make_spoke name p llm s tr = (Inr u, tr')"
  shows "\<exists>ms r. messages s = Some ms \<and>
           llm (tr @ [SpokeWorking name]) (Message System p # ms) = Some r \<and>
           u = \<lparr>u_messages = Some [r], u_next = None, u_visited = Some (get_visited s @ [name])\<rparr> \<and>
           tr' = tr @ [SpokeWorking name, LLMInvoke (Message System p # ms)]"
  using assms
  by (auto simp: make_spoke_def Let_def invoke_def split: option.splits sum.splits prod.splits)

lemma step_hub_Inr:
  assumes "at c = HubNode" and "step roster llm c = Inr c'"
  shows "\<exists>u. fst (hub roster llm (st c) (lg c)) = Inr u \<and>
           lg c' = snd (hub roster llm (st c) (lg c)) \<and>
           st c' = apply_update u (st c) \<and>
           (case hub_scan (map fst roster) (get_visited (st c)) of
              Some n \<Rightarrow> at c' = (if n = END then EndNode else SpokeNode n)
            | None \<Rightarrow> at c' = EndNode)"
  using assms
  apply (auto simp: step_def Let_def route_from_hub_def conditional_edge_def
      split: prod.splits sum.splits option.splits if_splits dest!: hub_Inr)
     apply (auto simp: apply_update_def)
  done

lemma step_spoke_Inr:
  assumes "at c = SpokeNode name" and "step roster llm c = Inr c'"
  shows "\<exists>p u. map_of roster name = Some p \<and>
           fst (make_spoke name p llm (st c) (lg c)) = Inr u \<and>
           lg c' = snd (make_spoke name p llm (st c) (lg c)) \<and>
           st c' = apply_update u (st c) \<and> at c' = HubNode"
  using assms
  by (auto simp: step_def split: prod.splits sum.splits option.splits)

lemma step_weight:
  assumes "at c \<noteq> EndNode" and "step roster llm c = Inr c'"
  shows "weight roster c' < weight roster c"
proof (cases "at c")
  case HubNode
  from step_hub_Inr [OF HubNode assms(2)] obtain u where
    u: "fst (hub roster llm (st c) (lg c)) = Inr u" "st c' = apply_update u (st c)"
      and nd: "case hub_scan (map fst roster) (get_visited (st c)) of
              Some n \<Rightarrow> at c' = (if n = END then EndNode else SpokeNode n)
            | None \<Rightarrow> at c' = EndNode" by blast
  from u(1) have "hub roster llm (st c) (lg c) = (Inr u, snd (hub roster llm (st c) (lg c)))"
    by (metis prod.collapse)
  from hub_Inr [OF this] have uv: "u_visited u = None" by simp
  then have gv: "get_visited (st c') = get_visited (st c)"
    by (simp add: u(2) get_visited_apply_update)
  show ?thesis
  proof (cases "hub_scan (map fst roster) (get_visited (st c))")
    case None
    with nd HubNode show ?thesis by (simp add: weight_def)
  next
    case (Some n)
    with nd hub_scan_Some [OF Some] HubNode gv show ?thesis
      by (simp add: weight_def pending_def)
  qed
next
  case (SpokeNode name)
  from step_spoke_Inr [OF SpokeNode assms(2)] obtain p u where
    u: "fst (make_spoke name p llm (st c) (lg c)) = Inr u" "st c' = apply_update u (st c)"
       "at c' = HubNode" by blast
  from u(1) have "make_spoke name p llm (st c) (lg c) = (Inr u, snd (make_spoke name p llm (st c) (lg c)))"
    by (metis prod.collapse)
  from make_spoke_Inr [OF this] have "u_visited u = Some (get_visited (st c) @ [name])" by auto
  then have gv: "get_visited (st c') = get_visited (st c) @ [name]"
    by (simp add: u(2) get_visited_apply_update)
  show ?thesis
  proof (cases "name \<in> set (pending roster (st c))")
    case True
    then have "length (pending roster (st c')) < length (pending roster (st c))"
      unfolding pending_def gv by (intro length_filter_append_less) auto
    with True SpokeNode u(3) show ?thesis by (simp add: weight_def)
  next
    case False
    have "length (pending roster (st c')) \<le> length (pending roster (st c))"
      unfolding pending_def gv by (rule length_filter_append_le)
    with False SpokeNode u(3) show ?thesis by (simp add: weight_def)
  qed
next
  case EndNode
  with assms(1) show ?thesis by simp
qed

function run :: "roster \<Rightarrow> llm \<Rightarrow> config \<Rightarrow> (error \<times> config) + config" where
  "run roster llm c =
     (if at c = EndNode then Inr c
      else case step roster llm c of
             Inl failure \<Rightarrow> Inl failure
           | Inr c' \<Rightarrow> run roster llm c')"
  by pat_completeness auto
termination
  by (relation "measure (\<lambda>(roster, llm, c). weight roster c)") (auto simp: step_weight)

declare run.simps [simp del]

text \<open>
  \<open>app.invoke(input)\<close> enters the graph at the hub with the given state; the block under
  \<open>__main__\<close> passes one user message, an empty \<open>visited\<close> and an empty \<open>next\<close>, and
  prints \<open>result["messages"][-1].content\<close>.
\<close>

definition app_invoke :: "roster \<Rightarrow> llm \<Rightarrow> AgentState \<Rightarrow> (error \<times> config) + config" where
  "app_invoke roster llm input = run roster llm \<lparr>at = HubNode, st = input, lg = []\<rparr>"

definition main_input :: "string \<Rightarrow> AgentState" where
  "main_input task = \<lparr>messages = Some [Message Human task], nxt = Some [], visited = Some []\<rparr>"

definition final_output :: "AgentState \<Rightarrow> error + string" where
  "final_output result =
     (case messages result of
        None \<Rightarrow> Inl (KeyError ''messages'')
      | Some ms \<Rightarrow> (if ms = [] then Inl IndexError else Inr (content (last ms))))"

subsection \<open>Reading the log\<close>

text \<open>
  The specialists that started working, in order; the number of syntheses the hub started;
  the requests sent to the language model, in order.
\<close>

fun worker_of :: "event \<Rightarrow> string list" where
  "worker_of (SpokeWorking name) = [name]"
| "worker_of e = []"

definition workers_run :: "event list \<Rightarrow> string list" where
  "workers_run tr = concat (map worker_of tr)"

definition syntheses :: "event list \<Rightarrow> nat" where
  "syntheses tr = length (filter (\<lambda>e. e = HubSynthesizing) tr)"

fun request_of :: "event \<Rightarrow> message list list" where
  "request_of (LLMInvoke req) = [req]"
| "request_of e = []"

definition llm_requests :: "event list \<Rightarrow> message list list" where
  "llm_requests tr = concat (map request_of tr)"

subsection \<open>Notions used to state the properties\<close>

text \<open>
  The configurations met while the graph runs: \<open>steps n\<close> is the configuration after
  \<open>n\<close> steps of the executor, when none of them fails.
\<close>

fun steps :: "roster \<Rightarrow> llm \<Rightarrow> nat \<Rightarrow> config \<Rightarrow> (error \<times> config) + config" where
  "steps roster llm 0 c = Inr c"
| "steps roster llm (Suc n) c =
     (case step roster llm c of
        Inl failure \<Rightarrow> Inl failure
      | Inr c' \<Rightarrow> steps roster llm n c')"

text \<open>
  A table the graph can be built from: its names are the keys of a dictionary, hence
  distinct, and none of them is the reserved name \<open>END\<close>.
\<close>

definition roster_ok :: "roster \<Rightarrow> bool" where
  "roster_ok roster = (distinct (map fst roster) \<and> END \<notin> set (map fst roster))"

text \<open>
  What a step appends to the history. \<open>history_of\<close> reads the history of a state, a
  missing key as the empty list. \<open>new_messages c c'\<close> is what the history of \<open>c'\<close> holds
  beyond the length of the history of \<open>c\<close>: the messages that the step from \<open>c\<close> to
  \<open>c'\<close> appended.
\<close>

definition history_of :: "AgentState \<Rightarrow> message list" where
  "history_of state = (case messages state of None \<Rightarrow> [] | Some msgs \<Rightarrow> msgs)"

definition new_messages :: "config \<Rightarrow> config \<Rightarrow> message list" where
  "new_messages c c' = drop (length (history_of (st c))) (history_of (st c'))"

text \<open>
  The ledger of a run: for each of the first \<open>n\<close> steps taken from \<open>c\<close>, the node
  that ran and the messages its step appended to the history. \<open>messages_by name ledger\<close>
  collects the messages appended by the steps of the spoke \<open>name\<close>.
\<close>

fun appended :: "roster \<Rightarrow> llm \<Rightarrow> nat \<Rightarrow> config \<Rightarrow> (node \<times> message list) list" where
  "appended roster llm 0 c = []"
| "appended roster llm (Suc n) c =
     (case step roster llm c of
        Inl failure \<Rightarrow> []
      | Inr c' \<Rightarrow> (at c, new_messages c c') # appended roster llm n c')"

definition messages_by :: "string \<Rightarrow> (node \<times> message list) list \<Rightarrow> message list" where
  "messages_by name ledger =
     concat (map snd (filter (\<lambda>entry. fst entry = SpokeNode name) ledger))"

text \<open>
  The invariant of the data model, on a configuration and the ledger of the steps that led
  to it: \<open>visited\<close> holds names of the table only; a name is in \<open>visited\<close> exactly
  when the steps of its spoke have appended one message in all; no spoke has appended more
  than one; and a spoke that is about to run is in the table and not yet in \<open>visited\<close>.
\<close>

definition worker_invariant :: "roster \<Rightarrow> (node \<times> message list) list \<Rightarrow> config \<Rightarrow> bool" where
  "worker_invariant roster ledger c =
     (set (get_visited (st c)) \<subseteq> set (map fst roster) \<and>
      (\<forall>name. (name \<in> set (get_visited (st c))) = (length (messages_by name ledger) = 1)) \<and>
      (\<forall>name. length (messages_by name ledger) \<le> 1) \<and>
      (\<forall>name. at c = SpokeNode name \<longrightarrow>
         name \<in> set (map fst roster) \<and> name \<notin> set (get_visited (st c))))"

text \<open>
  Where a run started by \<open>main_input task\<close> stands after \<open>k\<close> spokes have answered: the
  first \<open>k\<close> names of the table are visited, the history is the task followed by \<open>k\<close>
  answers, a spoke about to run is the one at position \<open>k\<close>, and at \<open>END\<close> every spoke
  has answered and the log ends with the one synthesis request and its answer is the last
  message.
\<close>

definition progress :: "roster \<Rightarrow> llm \<Rightarrow> string \<Rightarrow> nat \<Rightarrow> config \<Rightarrow> bool" where
  "progress roster llm task k c =
     (k \<le> length roster \<and>
      visited (st c) = Some (take k (map fst roster)) \<and>
      workers_run (lg c) = take k (map fst roster) \<and>
      (case at c of
         HubNode \<Rightarrow>
           (\<exists>rs. messages (st c) = Some (Message Human task # rs) \<and> length rs = k) \<and>
           syntheses (lg c) = 0 \<and> length (llm_requests (lg c)) = k
       | SpokeNode name \<Rightarrow>
           (\<exists>rs. messages (st c) = Some (Message Human task # rs) \<and> length rs = k) \<and>
           syntheses (lg c) = 0 \<and> length (llm_requests (lg c)) = k \<and>
           k < length roster \<and> name = map fst roster ! k
       | EndNode \<Rightarrow>
           k = length roster \<and>
           (\<exists>rs r pre. messages (st c) = Some (Message Human task # rs @ [r]) \<and> length rs = k \<and>
              lg c = pre @ [HubSynthesizing,
                            LLMInvoke (Message System orchestrator_prompt # Message Human task # rs)] \<and>
              syntheses pre = 0 \<and> workers_run pre = map fst roster \<and>
              length (llm_requests pre) = k \<and>
              llm (pre @ [HubSynthesizing])
                (Message System orchestrator_prompt # Message Human task # rs) = Some r)))"

section \<open>Properties\<close>

subsection \<open>The hub's decision\<close>

lemma hub_scan_first:
  "set pre \<subseteq> set vis \<Longrightarrow> name \<notin> set vis \<Longrightarrow> hub_scan (pre @ name # post) vis = Some name"
  by (induction pre) auto

lemma hub_scan_all_visited: "set names \<subseteq> set vis \<Longrightarrow> hub_scan names vis = None"
  by (induction names) auto

text \<open>
  C1. For every state the hub scans the roster in its order and routes to the first name
  that is not in \<open>visited\<close>: when the roster is \<open>pre @ name # post\<close> with every name of
  \<open>pre\<close> visited and \<open>name\<close> not visited, the hub returns \<open>{"next": name}\<close>. When every
  name of the roster is in \<open>visited\<close>, the hub finalizes: it asks for the synthesis of the
  history and, when the service answers, returns the answer with \<open>next = END\<close>.
\<close>

theorem hub_routes_first_unvisited:
  "(map fst roster = pre @ name # post \<and> set pre \<subseteq> set (get_visited state) \<and>
      name \<notin> set (get_visited state) \<longrightarrow>
    hub roster llm state tr =
      (Inr \<lparr>u_messages = None, u_next = Some name, u_visited = None\<rparr>, tr @ [HubRouting name])) \<and>
   (set (map fst roster) \<subseteq> set (get_visited state) \<longrightarrow>
    hub roster llm state tr =
      (case messages state of
         None \<Rightarrow> (Inl (KeyError ''messages''), tr @ [HubSynthesizing])
       | Some history \<Rightarrow>
           (case llm (tr @ [HubSynthesizing]) (Message System orchestrator_prompt # history) of
              None \<Rightarrow>
                (Inl GenerationFailure,
                 tr @ [HubSynthesizing, LLMInvoke (Message System orchestrator_prompt # history)])
            | Some response \<Rightarrow>
                (Inr \<lparr>u_messages = Some [response], u_next = Some END, u_visited = None\<rparr>,
                 tr @ [HubSynthesizing, LLMInvoke (Message System orchestrator_prompt # history)]))))"
proof (intro conjI impI)
  assume "map fst roster = pre @ name # post \<and> set pre \<subseteq> set (get_visited state) \<and>
      name \<notin> set (get_visited state)"
  then have "hub_scan (map fst roster) (get_visited state) = Some name"
    by (simp add: hub_scan_first)
  then show "hub roster llm state tr =
      (Inr \<lparr>u_messages = None, u_next = Some name, u_visited = None\<rparr>, tr @ [HubRouting name])"
    by (simp add: hub_def)
next
  assume "set (map fst roster) \<subseteq> set (get_visited state)"
  then have "hub_scan (map fst roster) (get_visited state) = None"
    by (rule hub_scan_all_visited)
  then show "hub roster llm state tr =
      (case messages state of
         None \<Rightarrow> (Inl (KeyError ''messages''), tr @ [HubSynthesizing])
       | Some history \<Rightarrow>
           (case llm (tr @ [HubSynthesizing]) (Message System orchestrator_prompt # history) of
              None \<Rightarrow>
                (Inl GenerationFailure,
                 tr @ [HubSynthesizing, LLMInvoke (Message System orchestrator_prompt # history)])
            | Some response \<Rightarrow>
                (Inr \<lparr>u_messages = Some [response], u_next = Some END, u_visited = None\<rparr>,
                 tr @ [HubSynthesizing, LLMInvoke (Message System orchestrator_prompt # history)])))"
    by (simp add: hub_def invoke_def split: option.splits)
qed

theorem hub_routes_first_unvisited_witness:
  "hub SPECIALISTS (\<lambda>tr req. None)
     \<lparr>messages = Some [Message Human ''q''], nxt = Some [], visited = Some [''analyst'', ''researcher'']\<rparr> [] =
     (Inr \<lparr>u_messages = None, u_next = Some ''critic'', u_visited = None\<rparr>, [HubRouting ''critic'']) \<and>
   hub SPECIALISTS (\<lambda>tr req. Some (Message AI ''done''))
     \<lparr>messages = Some [Message Human ''q''], nxt = Some [],
      visited = Some [''researcher'', ''analyst'', ''critic'', ''writer'']\<rparr> [] =
     (Inr \<lparr>u_messages = Some [Message AI ''done''], u_next = Some END, u_visited = None\<rparr>,
      [HubSynthesizing, LLMInvoke [Message System orchestrator_prompt, Message Human ''q'']])"
  using hub_routes_first_unvisited [of SPECIALISTS "[''researcher'', ''analyst'']" "''critic''" "[''writer'']"
      "\<lparr>messages = Some [Message Human ''q''], nxt = Some [], visited = Some [''analyst'', ''researcher'']\<rparr>"
      "\<lambda>tr req. None" "[]"]
    hub_routes_first_unvisited [of SPECIALISTS "[]" "''x''" "[]"
      "\<lparr>messages = Some [Message Human ''q''], nxt = Some [],
        visited = Some [''researcher'', ''analyst'', ''critic'', ''writer'']\<rparr>"
      "\<lambda>tr req. Some (Message AI ''done'')" "[]"]
  by (simp add: SPECIALISTS_def get_visited_def)

text \<open>
  C8. Asking the hub twice about the same state gives the same decision: whenever two calls
  of \<open>hub\<close> on one state return, whatever the service answered and whatever happened in
  between, the returned \<open>next\<close> is the same, and it is set.
\<close>

theorem hub_decision_idempotent:
  assumes "hub roster llm state tr = (Inr u1, tr1)"
    and "hub roster llm' state tr' = (Inr u2, tr2)"
  shows "u_next u2 = u_next u1 \<and> (\<exists>target. u_next u1 = Some target)"
  using hub_Inr [OF assms(1)] hub_Inr [OF assms(2)] by (auto split: option.splits)

theorem hub_decision_idempotent_witness:
  "hub SPECIALISTS (\<lambda>tr req. Some (Message AI (if length tr = 1 then ''first'' else ''second'')))
     \<lparr>messages = Some [Message Human ''q''], nxt = Some [],
      visited = Some [''researcher'', ''analyst'', ''critic'', ''writer'']\<rparr> [] =
     (Inr \<lparr>u_messages = Some [Message AI ''first''], u_next = Some END, u_visited = None\<rparr>,
      [HubSynthesizing, LLMInvoke [Message System orchestrator_prompt, Message Human ''q'']]) \<and>
   hub SPECIALISTS (\<lambda>tr req. Some (Message AI (if length tr = 1 then ''first'' else ''second'')))
     \<lparr>messages = Some [Message Human ''q''], nxt = Some [],
      visited = Some [''researcher'', ''analyst'', ''critic'', ''writer'']\<rparr>
     [HubSynthesizing, LLMInvoke [Message System orchestrator_prompt, Message Human ''q'']] =
     (Inr \<lparr>u_messages = Some [Message AI ''second''], u_next = Some END, u_visited = None\<rparr>,
      [HubSynthesizing, LLMInvoke [Message System orchestrator_prompt, Message Human ''q''],
       HubSynthesizing, LLMInvoke [Message System orchestrator_prompt, Message Human ''q'']]) \<and>
   u_next \<lparr>u_messages = Some [Message AI ''second''], u_next = Some END, u_visited = None\<rparr> =
   u_next \<lparr>u_messages = Some [Message AI ''first''], u_next = Some END, u_visited = None\<rparr>"
proof -
  let ?llm = "\<lambda>tr req. Some (Message AI (if length (tr :: event list) = 1 then ''first'' else ''second''))"
  let ?s = "\<lparr>messages = Some [Message Human ''q''], nxt = Some [],
      visited = Some [''researcher'', ''analyst'', ''critic'', ''writer'']\<rparr>"
  let ?tr1 = "[HubSynthesizing, LLMInvoke [Message System orchestrator_prompt, Message Human ''q'']]"
  have a: "hub SPECIALISTS ?llm ?s [] =
     (Inr \<lparr>u_messages = Some [Message AI ''first''], u_next = Some END, u_visited = None\<rparr>, ?tr1)"
    by (simp add: hub_def SPECIALISTS_def get_visited_def invoke_def)
  have b: "hub SPECIALISTS ?llm ?s ?tr1 =
     (Inr \<lparr>u_messages = Some [Message AI ''second''], u_next = Some END, u_visited = None\<rparr>,
      ?tr1 @ ?tr1)"
    by (simp add: hub_def SPECIALISTS_def get_visited_def invoke_def)
  from hub_decision_idempotent [OF a b] a b show ?thesis by simp
qed

text \<open>
  The step of the hub node, written out: the result of \<open>step\<close> at the hub is determined by
  the scan of the table, the history and the service's answer.
\<close>

lemma step_hub_eq:
  assumes "at c = HubNode"
  shows "step roster llm c =
           (case hub_scan (map fst roster) (get_visited (st c)) of
              Some name \<Rightarrow>
                Inr \<lparr>at = (if name = END then EndNode else SpokeNode name),
                     st = (st c)\<lparr>nxt := Some name\<rparr>,
                     lg = lg c @ [HubRouting name]\<rparr>
            | None \<Rightarrow>
                (case messages (st c) of
                   None \<Rightarrow> Inl (KeyError ''messages'', c\<lparr>lg := lg c @ [HubSynthesizing]\<rparr>)
                 | Some history \<Rightarrow>
                     (case llm (lg c @ [HubSynthesizing])
                             (Message System orchestrator_prompt # history) of
                        None \<Rightarrow>
                          Inl (GenerationFailure,
                               c\<lparr>lg := lg c @ [HubSynthesizing,
                                         LLMInvoke (Message System orchestrator_prompt # history)]\<rparr>)
                      | Some response \<Rightarrow>
                          Inr \<lparr>at = EndNode,
                               st = (st c)\<lparr>messages := Some (history @ [response]),
                                          nxt := Some END\<rparr>,
                               lg = lg c @ [HubSynthesizing,
                                       LLMInvoke (Message System orchestrator_prompt # history)]\<rparr>)))"
proof -
  obtain m n v where s: "st c = \<lparr>messages = m, nxt = n, visited = v\<rparr>"
    by (cases "st c") auto
  show ?thesis
  proof (cases "hub_scan (map fst roster) (get_visited (st c))")
    case None
    show ?thesis
    proof (cases m)
      case mn: None
      show ?thesis using assms None mn
        by (simp add: s step_def hub_def Let_def)
    next
      case (Some history)
      show ?thesis using assms None Some
        by (cases "llm (lg c @ [HubSynthesizing]) (Message System orchestrator_prompt # history)")
           (simp_all add: s step_def hub_def Let_def invoke_def route_from_hub_def
              conditional_edge_def apply_update_def add_messages_def)
    qed
  next
    case (Some name)
    from hub_scan_Some [OF Some] have "name \<in> set (map fst roster)" by simp
    then show ?thesis using assms Some
      by (simp add: s step_def hub_def Let_def route_from_hub_def
              conditional_edge_def apply_update_def)
  qed
qed

text \<open>
  C9. A hub step is exactly one of these. When a name of the table is not in \<open>visited\<close>,
  the step succeeds and the new state is the old one with \<open>next\<close> set to the first such
  name: history and \<open>visited\<close> are unchanged. When every name is visited, the hub sends
  the synthesis request; when the service answers, the step succeeds and the new state is
  the old one with that answer appended to the history, as its one new message, and
  \<open>next\<close> set to \<open>END\<close>; when the service fails, or the history is missing, the step
  fails in the state it was given. No hub step changes \<open>visited\<close>.
\<close>

theorem hub_step_frame:
  assumes "at c = HubNode"
  shows "step roster llm c =
           (case hub_scan (map fst roster) (get_visited (st c)) of
              Some name \<Rightarrow>
                Inr \<lparr>at = (if name = END then EndNode else SpokeNode name),
                     st = (st c)\<lparr>nxt := Some name\<rparr>,
                     lg = lg c @ [HubRouting name]\<rparr>
            | None \<Rightarrow>
                (case messages (st c) of
                   None \<Rightarrow> Inl (KeyError ''messages'', c\<lparr>lg := lg c @ [HubSynthesizing]\<rparr>)
                 | Some history \<Rightarrow>
                     (case llm (lg c @ [HubSynthesizing])
                             (Message System orchestrator_prompt # history) of
                        None \<Rightarrow>
                          Inl (GenerationFailure,
                               c\<lparr>lg := lg c @ [HubSynthesizing,
                                         LLMInvoke (Message System orchestrator_prompt # history)]\<rparr>)
                      | Some response \<Rightarrow>
                          Inr \<lparr>at = EndNode,
                               st = (st c)\<lparr>messages := Some (history @ [response]),
                                          nxt := Some END\<rparr>,
                               lg = lg c @ [HubSynthesizing,
                                       LLMInvoke (Message System orchestrator_prompt # history)]\<rparr>))) \<and>
         (\<forall>c'. step roster llm c = Inr c' \<longrightarrow> visited (st c') = visited (st c)) \<and>
         (\<forall>e c'. step roster llm c = Inl (e, c') \<longrightarrow> st c' = st c)"
proof -
  note eq = step_hub_eq [OF assms, of roster llm]
  have "visited (st c') = visited (st c)" if "step roster llm c = Inr c'" for c'
    using that unfolding eq by (auto split: option.splits)
  moreover have "st c' = st c" if "step roster llm c = Inl (e, c')" for e c'
    using that unfolding eq by (auto split: option.splits)
  ultimately show ?thesis using eq by blast
qed

theorem hub_step_frame_witness:
  "step SPECIALISTS (\<lambda>tr req. None)
      \<lparr>at = HubNode,
        st = \<lparr>messages = Some [Message Human ''q''], nxt = Some [], visited = Some [''researcher'']\<rparr>,
        lg = []\<rparr> =
    Inr \<lparr>at = SpokeNode ''analyst'',
          st = \<lparr>messages = Some [Message Human ''q''], nxt = Some ''analyst'',
                visited = Some [''researcher'']\<rparr>,
          lg = [HubRouting ''analyst'']\<rparr> \<and>
   step SPECIALISTS (\<lambda>tr req. Some (Message AI ''done''))
      \<lparr>at = HubNode,
        st = \<lparr>messages = Some [Message Human ''q'', Message AI ''a''], nxt = Some ''writer'',
              visited = Some [''researcher'', ''analyst'', ''critic'', ''writer'']\<rparr>,
        lg = []\<rparr> =
    Inr \<lparr>at = EndNode,
          st = \<lparr>messages = Some [Message Human ''q'', Message AI ''a'', Message AI ''done''],
                nxt = Some END,
                visited = Some [''researcher'', ''analyst'', ''critic'', ''writer'']\<rparr>,
          lg = [HubSynthesizing,
                LLMInvoke [Message System orchestrator_prompt, Message Human ''q'',
                           Message AI ''a'']]\<rparr> \<and>
   step SPECIALISTS (\<lambda>tr req. None)
      \<lparr>at = HubNode,
        st = \<lparr>messages = Some [Message Human ''q'', Message AI ''a''], nxt = Some ''writer'',
              visited = Some [''researcher'', ''analyst'', ''critic'', ''writer'']\<rparr>,
        lg = []\<rparr> =
    Inl (GenerationFailure,
         \<lparr>at = HubNode,
           st = \<lparr>messages = Some [Message Human ''q'', Message AI ''a''], nxt = Some ''writer'',
                 visited = Some [''researcher'', ''analyst'', ''critic'', ''writer'']\<rparr>,
           lg = [HubSynthesizing,
                 LLMInvoke [Message System orchestrator_prompt, Message Human ''q'',
                            Message AI ''a'']]\<rparr>)"
proof -
  let ?c1 = "\<lparr>at = HubNode,
        st = \<lparr>messages = Some [Message Human ''q''], nxt = Some [], visited = Some [''researcher'']\<rparr>,
        lg = []\<rparr>"
  let ?c2 = "\<lparr>at = HubNode,
        st = \<lparr>messages = Some [Message Human ''q'', Message AI ''a''], nxt = Some ''writer'',
              visited = Some [''researcher'', ''analyst'', ''critic'', ''writer'']\<rparr>,
        lg = []\<rparr>"
  have a1: "at ?c1 = HubNode" and a2: "at ?c2 = HubNode" by simp_all
  have s1: "hub_scan (map fst SPECIALISTS) (get_visited (st ?c1)) = Some ''analyst''"
    by (simp add: SPECIALISTS_def get_visited_def)
  have s2: "hub_scan (map fst SPECIALISTS) (get_visited (st ?c2)) = None"
    by (simp add: SPECIALISTS_def get_visited_def)
  have e: "''analyst'' \<noteq> END" by (simp add: END_def)
  from hub_step_frame [OF a1, of SPECIALISTS "\<lambda>tr req. None", THEN conjunct1]
  have r1: "step SPECIALISTS (\<lambda>tr req. None) ?c1 =
    Inr \<lparr>at = SpokeNode ''analyst'',
          st = \<lparr>messages = Some [Message Human ''q''], nxt = Some ''analyst'',
                visited = Some [''researcher'']\<rparr>,
          lg = [HubRouting ''analyst'']\<rparr>"
    unfolding s1 using e by simp
  from hub_step_frame [OF a2, of SPECIALISTS "\<lambda>tr req. Some (Message AI ''done'')", THEN conjunct1]
  have r2: "step SPECIALISTS (\<lambda>tr req. Some (Message AI ''done'')) ?c2 =
    Inr \<lparr>at = EndNode,
          st = \<lparr>messages = Some [Message Human ''q'', Message AI ''a'', Message AI ''done''],
                nxt = Some END,
                visited = Some [''researcher'', ''analyst'', ''critic'', ''writer'']\<rparr>,
          lg = [HubSynthesizing,
                LLMInvoke [Message System orchestrator_prompt, Message Human ''q'',
                           Message AI ''a'']]\<rparr>"
    unfolding s2 by simp
  from hub_step_frame [OF a2, of SPECIALISTS "\<lambda>tr req. None", THEN conjunct1]
  have r3: "step SPECIALISTS (\<lambda>tr req. None) ?c2 =
    Inl (GenerationFailure,
         \<lparr>at = HubNode,
           st = \<lparr>messages = Some [Message Human ''q'', Message AI ''a''], nxt = Some ''writer'',
                 visited = Some [''researcher'', ''analyst'', ''critic'', ''writer'']\<rparr>,
           lg = [HubSynthesizing,
                 LLMInvoke [Message System orchestrator_prompt, Message Human ''q'',
                            Message AI ''a'']]\<rparr>)"
    unfolding s2 by simp
  from r1 r2 r3 show ?thesis by (intro conjI)
qed

text \<open>
  C10. A state without the key \<open>visited\<close> is handled as one whose \<open>visited\<close> is the
  empty list, by the hub and by every spoke: the results are equal. In particular the hub of
  a non-empty table routes to its first name without any error, a spoke never raises a
  \<open>KeyError\<close> for \<open>visited\<close>, a spoke that returns writes the one-element list of its own
  name, and a spoke returns whenever the history is present and the service answers.
\<close>

theorem missing_visited_is_empty:
  "hub roster llm (state\<lparr>visited := None\<rparr>) tr = hub roster llm (state\<lparr>visited := Some []\<rparr>) tr \<and>
   make_spoke name system_prompt llm (state\<lparr>visited := None\<rparr>) tr =
     make_spoke name system_prompt llm (state\<lparr>visited := Some []\<rparr>) tr \<and>
   hub ((name, system_prompt) # rest) llm (state\<lparr>visited := None\<rparr>) tr =
     (Inr \<lparr>u_messages = None, u_next = Some name, u_visited = None\<rparr>, tr @ [HubRouting name]) \<and>
   (case make_spoke name system_prompt llm (state\<lparr>visited := None\<rparr>) tr of
      (Inl e, tr') \<Rightarrow> e \<noteq> KeyError ''visited''
    | (Inr u, tr') \<Rightarrow> u_visited u = Some [name]) \<and>
   (case messages state of
      None \<Rightarrow> True
    | Some history \<Rightarrow>
        (case llm (tr @ [SpokeWorking name]) (Message System system_prompt # history) of
           None \<Rightarrow> True
         | Some response \<Rightarrow>
             fst (make_spoke name system_prompt llm (state\<lparr>visited := None\<rparr>) tr) =
               Inr \<lparr>u_messages = Some [response], u_next = None, u_visited = Some [name]\<rparr>))"
  by (auto simp: hub_def make_spoke_def get_visited_def Let_def invoke_def
      split: option.splits sum.splits prod.splits)

theorem missing_visited_is_empty_witness:
  "hub SPECIALISTS (\<lambda>tr request. None) \<lparr>messages = None, nxt = None, visited = None\<rparr> [] =
     (Inr \<lparr>u_messages = None, u_next = Some ''researcher'', u_visited = None\<rparr>,
      [HubRouting ''researcher'']) \<and>
   fst (make_spoke ''researcher'' ''Be brief.'' (\<lambda>tr request. Some (Message AI ''fact''))
          \<lparr>messages = Some [Message Human ''q''], nxt = Some ''researcher'', visited = None\<rparr>
          [HubRouting ''researcher'']) =
     Inr \<lparr>u_messages = Some [Message AI ''fact''], u_next = None, u_visited = Some [''researcher'']\<rparr>"
proof -
  have sp: "SPECIALISTS = (''researcher'', snd (hd SPECIALISTS)) # tl SPECIALISTS"
    by (simp add: SPECIALISTS_def)
  have "hub ((''researcher'', snd (hd SPECIALISTS)) # tl SPECIALISTS) (\<lambda>tr request. None)
          \<lparr>messages = None, nxt = None, visited = None\<rparr> [] =
        (Inr \<lparr>u_messages = None, u_next = Some ''researcher'', u_visited = None\<rparr>,
         [HubRouting ''researcher''])"
    using missing_visited_is_empty [where roster = "[]" and rest = "tl SPECIALISTS"
      and name = "''researcher''" and system_prompt = "snd (hd SPECIALISTS)"
      and llm = "\<lambda>tr request. None"
      and state = "\<lparr>messages = None, nxt = None, visited = None\<rparr>" and tr = "[]",
      THEN conjunct2, THEN conjunct2, THEN conjunct1]
    by simp
  then have a: "hub SPECIALISTS (\<lambda>tr request. None)
          \<lparr>messages = None, nxt = None, visited = None\<rparr> [] =
        (Inr \<lparr>u_messages = None, u_next = Some ''researcher'', u_visited = None\<rparr>,
         [HubRouting ''researcher''])"
    using sp by simp
  have b: "fst (make_spoke ''researcher'' ''Be brief.'' (\<lambda>tr request. Some (Message AI ''fact''))
          \<lparr>messages = Some [Message Human ''q''], nxt = Some ''researcher'', visited = None\<rparr>
          [HubRouting ''researcher'']) =
     Inr \<lparr>u_messages = Some [Message AI ''fact''], u_next = None, u_visited = Some [''researcher'']\<rparr>"
    using missing_visited_is_empty [where roster = "[]" and rest = "[]"
      and name = "''researcher''" and system_prompt = "''Be brief.''"
      and llm = "\<lambda>tr request. Some (Message AI ''fact'')"
      and state = "\<lparr>messages = Some [Message Human ''q''], nxt = Some ''researcher'',
                     visited = None\<rparr>"
      and tr = "[HubRouting ''researcher'']",
      THEN conjunct2, THEN conjunct2, THEN conjunct2, THEN conjunct2]
    by simp
  from a b show ?thesis by (rule conjI)
qed

subsection \<open>One spoke\<close>

text \<open>
  C7. One call of a spoke sends the service exactly one request, the system prompt in front of
  the history of the state; the answer is the single message the spoke returns, which the
  merge appends to the history; the spoke's name is appended to \<open>visited\<close>; \<open>next\<close>
  is untouched.
\<close>

theorem worker_contribution:
  assumes "messages state = Some history"
    and "llm (tr @ [SpokeWorking name]) (Message System system_prompt # history) = Some response"
  shows "\<exists>u tr'. make_spoke name system_prompt llm state tr = (Inr u, tr') \<and>
           llm_requests tr' = llm_requests tr @ [Message System system_prompt # history] \<and>
           u_messages u = Some [response] \<and>
           messages (apply_update u state) = Some (history @ [response]) \<and>
           visited (apply_update u state) = Some (get_visited state @ [name]) \<and>
           nxt (apply_update u state) = nxt state"
  using assms
  by (simp add: make_spoke_def invoke_def apply_update_def add_messages_def llm_requests_def)

theorem worker_contribution_witness:
  "\<exists>u tr'. make_spoke ''critic'' ''Be critical.'' (\<lambda>tr req. Some (Message AI ''risky''))
       \<lparr>messages = Some [Message Human ''q'', Message AI ''a''], nxt = Some ''critic'',
        visited = Some [''researcher'']\<rparr> [HubRouting ''critic''] = (Inr u, tr') \<and>
     llm_requests tr' =
       [[Message System ''Be critical.'', Message Human ''q'', Message AI ''a'']] \<and>
     u_messages u = Some [Message AI ''risky''] \<and>
     messages (apply_update u \<lparr>messages = Some [Message Human ''q'', Message AI ''a''],
        nxt = Some ''critic'', visited = Some [''researcher'']\<rparr>) =
       Some [Message Human ''q'', Message AI ''a'', Message AI ''risky''] \<and>
     visited (apply_update u \<lparr>messages = Some [Message Human ''q'', Message AI ''a''],
        nxt = Some ''critic'', visited = Some [''researcher'']\<rparr>) =
       Some [''researcher'', ''critic''] \<and>
     nxt (apply_update u \<lparr>messages = Some [Message Human ''q'', Message AI ''a''],
        nxt = Some ''critic'', visited = Some [''researcher'']\<rparr>) = Some ''critic''"
  using worker_contribution [of
      "\<lparr>messages = Some [Message Human ''q'', Message AI ''a''], nxt = Some ''critic'',
        visited = Some [''researcher'']\<rparr>"
      "[Message Human ''q'', Message AI ''a'']"
      "\<lambda>tr req. Some (Message AI ''risky'')" "[HubRouting ''critic'']" "''critic''"
      "''Be critical.''" "Message AI ''risky''"]
  by (simp add: get_visited_def llm_requests_def)

subsection \<open>What every step keeps\<close>

lemma workers_run_simps [simp]:
  "workers_run [] = []"
  "workers_run (tr @ tr') = workers_run tr @ workers_run tr'"
  "workers_run (e # tr) = worker_of e @ workers_run tr"
  by (simp_all add: workers_run_def)

lemma syntheses_simps [simp]:
  "syntheses [] = 0"
  "syntheses (tr @ tr') = syntheses tr + syntheses tr'"
  "syntheses (e # tr) = (if e = HubSynthesizing then 1 else 0) + syntheses tr"
  by (simp_all add: syntheses_def)

lemma llm_requests_simps [simp]:
  "llm_requests [] = []"
  "llm_requests (tr @ tr') = llm_requests tr @ llm_requests tr'"
  "llm_requests (e # tr) = request_of e @ llm_requests tr"
  by (simp_all add: llm_requests_def)

lemma hub_scan_prefix:
  assumes "distinct names" and "k \<le> length names"
  shows "hub_scan names (take k names) = (if k < length names then Some (names ! k) else None)"
proof (cases "k < length names")
  case True
  then have split: "names = take k names @ names ! k # drop (Suc k) names"
    by (simp add: id_take_nth_drop)
  have notin: "names ! k \<notin> set (take k names)"
  proof
    assume "names ! k \<in> set (take k names)"
    then obtain i where "i < k" "names ! i = names ! k"
      using True by (auto simp: in_set_conv_nth)
    with assms(1) True show False by (auto simp: nth_eq_iff_index_eq)
  qed
  have "hub_scan (take k names @ names ! k # drop (Suc k) names) (take k names) = Some (names ! k)"
    by (rule hub_scan_first) (use notin in auto)
  with split True show ?thesis by simp
next
  case False
  with assms(2) have "take k names = names" by simp
  with False show ?thesis by (simp add: hub_scan_all_visited)
qed

lemma progress_init:
  "progress roster llm task 0 \<lparr>at = HubNode, st = main_input task, lg = []\<rparr>"
  by (simp add: progress_def main_input_def)


lemma step_hub_cases:
  assumes "at c = HubNode" and "step roster llm c = Inr c'"
  shows "(\<exists>name. hub_scan (map fst roster) (get_visited (st c)) = Some name \<and>
            st c' = apply_update \<lparr>u_messages = None, u_next = Some name, u_visited = None\<rparr> (st c) \<and>
            lg c' = lg c @ [HubRouting name] \<and>
            at c' = (if name = END then EndNode else SpokeNode name)) \<or>
         (\<exists>ms r. hub_scan (map fst roster) (get_visited (st c)) = None \<and>
            messages (st c) = Some ms \<and>
            llm (lg c @ [HubSynthesizing]) (Message System orchestrator_prompt # ms) = Some r \<and>
            st c' = apply_update \<lparr>u_messages = Some [r], u_next = Some END, u_visited = None\<rparr> (st c) \<and>
            lg c' = lg c @ [HubSynthesizing, LLMInvoke (Message System orchestrator_prompt # ms)] \<and>
            at c' = EndNode)"
proof -
  from step_hub_Inr [OF assms] obtain u where
    u: "fst (hub roster llm (st c) (lg c)) = Inr u"
    and lg: "lg c' = snd (hub roster llm (st c) (lg c))"
    and st: "st c' = apply_update u (st c)"
    and nd: "case hub_scan (map fst roster) (get_visited (st c)) of
               Some n \<Rightarrow> at c' = (if n = END then EndNode else SpokeNode n)
             | None \<Rightarrow> at c' = EndNode"
    by blast
  from u lg have "hub roster llm (st c) (lg c) = (Inr u, lg c')"
    by (metis prod.collapse)
  note H = hub_Inr [OF this]
  show ?thesis
  proof (cases "hub_scan (map fst roster) (get_visited (st c))")
    case None
    with H obtain ms r where "messages (st c) = Some ms"
      "llm (lg c @ [HubSynthesizing]) (Message System orchestrator_prompt # ms) = Some r"
      "u = \<lparr>u_messages = Some [r], u_next = Some END, u_visited = None\<rparr>"
      "lg c' = lg c @ [HubSynthesizing, LLMInvoke (Message System orchestrator_prompt # ms)]"
      by auto
    with None nd st show ?thesis by simp
  next
    case (Some n)
    with H have "u = \<lparr>u_messages = None, u_next = Some n, u_visited = None\<rparr>"
      "lg c' = lg c @ [HubRouting n]" by simp_all
    with Some nd st show ?thesis by simp
  qed
qed

lemma step_spoke_cases:
  assumes "at c = SpokeNode name" and "step roster llm c = Inr c'"
  shows "\<exists>p ms r. map_of roster name = Some p \<and> messages (st c) = Some ms \<and>
           llm (lg c @ [SpokeWorking name]) (Message System p # ms) = Some r \<and>
           st c' = apply_update \<lparr>u_messages = Some [r], u_next = None,
                                  u_visited = Some (get_visited (st c) @ [name])\<rparr> (st c) \<and>
           lg c' = lg c @ [SpokeWorking name, LLMInvoke (Message System p # ms)] \<and>
           at c' = HubNode"
proof -
  from step_spoke_Inr [OF assms] obtain p u where
    p: "map_of roster name = Some p"
    and u: "fst (make_spoke name p llm (st c) (lg c)) = Inr u"
    and lg: "lg c' = snd (make_spoke name p llm (st c) (lg c))"
    and st: "st c' = apply_update u (st c)" and nd: "at c' = HubNode"
    by blast
  from u lg have "make_spoke name p llm (st c) (lg c) = (Inr u, lg c')"
    by (metis prod.collapse)
  from make_spoke_Inr [OF this] obtain ms r where "messages (st c) = Some ms"
    "llm (lg c @ [SpokeWorking name]) (Message System p # ms) = Some r"
    "u = \<lparr>u_messages = Some [r], u_next = None, u_visited = Some (get_visited (st c) @ [name])\<rparr>"
    "lg c' = lg c @ [SpokeWorking name, LLMInvoke (Message System p # ms)]"
    by blast
  with p st nd show ?thesis by simp
qed

lemma step_progress:
  assumes ok: "roster_ok roster" and inv: "progress roster llm task k c"
    and stp: "step roster llm c = Inr c'"
  shows "\<exists>k'. progress roster llm task k' c'"
proof (cases "at c")
  case EndNode
  with stp have "c' = c" by (simp add: step_def)
  with inv show ?thesis by blast
next
  case HubNode
  from inv HubNode obtain rs where
    k: "k \<le> length roster" and vis: "visited (st c) = Some (take k (map fst roster))"
    and wr: "workers_run (lg c) = take k (map fst roster)"
    and ms: "messages (st c) = Some (Message Human task # rs)" and len: "length rs = k"
    and syn: "syntheses (lg c) = 0" and rq: "length (llm_requests (lg c)) = k"
    by (auto simp: progress_def)
  from vis have gv: "get_visited (st c) = take k (map fst roster)" by (simp add: get_visited_def)
  from ok k have scan: "hub_scan (map fst roster) (get_visited (st c)) =
      (if k < length roster then Some (map fst roster ! k) else None)"
    unfolding gv roster_ok_def using hub_scan_prefix [of "map fst roster" k] by simp
  from step_hub_cases [OF HubNode stp] show ?thesis
  proof (elim disjE exE conjE)
    fix name
    assume a: "hub_scan (map fst roster) (get_visited (st c)) = Some name"
      "st c' = apply_update \<lparr>u_messages = None, u_next = Some name, u_visited = None\<rparr> (st c)"
      "lg c' = lg c @ [HubRouting name]" "at c' = (if name = END then EndNode else SpokeNode name)"
    from a(1) scan have kl: "k < length roster" and nm: "name = map fst roster ! k"
      by (auto split: if_splits)
    from kl nm have "name \<in> set (map fst roster)" by (metis length_map nth_mem)
    with ok have "name \<noteq> END" unfolding roster_ok_def by blast
    with a kl nm k vis wr ms len syn rq have "progress roster llm task k c'"
      by (simp add: progress_def apply_update_def)
    then show ?thesis ..
  next
    fix hist r
    assume a: "hub_scan (map fst roster) (get_visited (st c)) = None"
      "messages (st c) = Some hist"
      "llm (lg c @ [HubSynthesizing]) (Message System orchestrator_prompt # hist) = Some r"
      "st c' = apply_update \<lparr>u_messages = Some [r], u_next = Some END, u_visited = None\<rparr> (st c)"
      "lg c' = lg c @ [HubSynthesizing, LLMInvoke (Message System orchestrator_prompt # hist)]"
      "at c' = EndNode"
    from a(1) scan k have kl: "k = length roster" by (auto split: if_splits)
    from a(2) ms have hist: "hist = Message Human task # rs" by simp
    from a kl hist k vis wr ms len syn rq have "progress roster llm task k c'"
      by (simp add: progress_def apply_update_def add_messages_def)
    then show ?thesis ..
  qed
next
  case (SpokeNode name)
  from inv SpokeNode obtain rs where
    k: "k < length roster" and vis: "visited (st c) = Some (take k (map fst roster))"
    and wr: "workers_run (lg c) = take k (map fst roster)"
    and ms: "messages (st c) = Some (Message Human task # rs)" and len: "length rs = k"
    and syn: "syntheses (lg c) = 0" and rq: "length (llm_requests (lg c)) = k"
    and nm: "name = map fst roster ! k"
    by (auto simp: progress_def)
  from vis have gv: "get_visited (st c) = take k (map fst roster)" by (simp add: get_visited_def)
  from k nm have tk: "take (Suc k) (map fst roster) = take k (map fst roster) @ [name]"
    by (simp add: take_Suc_conv_app_nth)
  from step_spoke_cases [OF SpokeNode stp] obtain p hist r where
    h: "messages (st c) = Some hist" and
    a: "st c' = apply_update \<lparr>u_messages = Some [r], u_next = None,
                                  u_visited = Some (get_visited (st c) @ [name])\<rparr> (st c)"
      "lg c' = lg c @ [SpokeWorking name, LLMInvoke (Message System p # hist)]"
      "at c' = HubNode" by blast
  from h ms have hist: "hist = Message Human task # rs" by simp
  from a k tk gv vis wr ms len syn rq have "progress roster llm task (Suc k) c'"
    by (simp add: hist progress_def apply_update_def add_messages_def)
  then show ?thesis ..
qed

lemma steps_progress:
  assumes "roster_ok roster"
  shows "progress roster llm task k c \<Longrightarrow> steps roster llm n c = Inr c' \<Longrightarrow>
         \<exists>k'. progress roster llm task k' c'"
proof (induction n arbitrary: k c)
  case 0
  then show ?case by auto
next
  case (Suc n)
  from Suc.prems(2) obtain c1 where c1: "step roster llm c = Inr c1" "steps roster llm n c1 = Inr c'"
    by (auto split: sum.splits)
  from step_progress [OF assms Suc.prems(1) c1(1)] obtain k1 where "progress roster llm task k1 c1" ..
  from Suc.IH [OF this c1(2)] show ?case .
qed

lemma run_End: "at c = EndNode \<Longrightarrow> run roster llm c = Inr c"
  by (subst run.simps) simp

lemma run_step:
  "at c \<noteq> EndNode \<Longrightarrow>
   run roster llm c = (case step roster llm c of Inl f \<Rightarrow> Inl f | Inr c' \<Rightarrow> run roster llm c')"
  by (subst run.simps) simp

lemma run_Inr_progress:
  "roster_ok roster \<Longrightarrow> progress roster llm task k c \<Longrightarrow> run roster llm c = Inr c' \<Longrightarrow>
   at c' = EndNode \<and> (\<exists>k'. progress roster llm task k' c')"
proof (induction roster llm c arbitrary: k rule: run.induct)
  case (1 roster llm c)
  show ?case
  proof (cases "at c = EndNode")
    case True
    with "1.prems"(3) have "c' = c" by (simp add: run_End)
    with True "1.prems"(2) show ?thesis by auto
  next
    case False
    with "1.prems"(3) obtain c1 where c1: "step roster llm c = Inr c1" "run roster llm c1 = Inr c'"
      by (cases "step roster llm c") (simp_all add: run_step)
    from step_progress [OF "1.prems"(1,2) c1(1)] obtain k1 where "progress roster llm task k1 c1" ..
    from "1.IH" [OF False c1(1) "1.prems"(1) this c1(2)] show ?thesis .
  qed
qed

lemma run_Inl_progress:
  "roster_ok roster \<Longrightarrow> progress roster llm task k c \<Longrightarrow> run roster llm c = Inl failure \<Longrightarrow>
   \<exists>k' c0. progress roster llm task k' c0 \<and> at c0 \<noteq> EndNode \<and> step roster llm c0 = Inl failure"
proof (induction roster llm c arbitrary: k rule: run.induct)
  case (1 roster llm c)
  show ?case
  proof (cases "at c = EndNode")
    case True
    with "1.prems"(3) show ?thesis by (simp add: run_End)
  next
    case False
    show ?thesis
    proof (cases "step roster llm c")
      case (Inl f)
      with False "1.prems"(3) have "f = failure" by (simp add: run_step)
      with Inl False "1.prems"(2) show ?thesis by blast
    next
      case (Inr c1)
      with False "1.prems"(3) have r: "run roster llm c1 = Inl failure"
        by (simp add: run_step)
      from step_progress [OF "1.prems"(1,2) Inr] obtain k1 where "progress roster llm task k1 c1" ..
      from "1.IH" [OF False Inr "1.prems"(1) this r] show ?thesis .
    qed
  qed
qed

lemma run_steps:
  "steps roster llm n c = Inr c' \<Longrightarrow> run roster llm c = run roster llm c'"
proof (induction n arbitrary: c)
  case 0
  then show ?case by simp
next
  case (Suc n)
  from Suc.prems obtain c1 where c1: "step roster llm c = Inr c1" "steps roster llm n c1 = Inr c'"
    by (auto split: sum.splits)
  have "run roster llm c = run roster llm c1"
  proof (cases "at c = EndNode")
    case True
    with c1(1) have "c1 = c" by (simp add: step_def)
    then show ?thesis by simp
  next
    case False
    then show ?thesis using c1(1) by (simp add: run_step)
  qed
  with Suc.IH [OF c1(2)] show ?case by simp
qed

lemma messages_by_append:
  "messages_by name (ledger @ [(nd, ms)]) =
     messages_by name ledger @ (if nd = SpokeNode name then ms else [])"
  by (simp add: messages_by_def)

lemma step_hub_new:
  assumes "at c = HubNode" and "step roster llm c = Inr c'"
  shows "get_visited (st c') = get_visited (st c) \<and>
         history_of (st c') = history_of (st c) @ new_messages c c' \<and>
         (\<forall>name. at c' = SpokeNode name \<longrightarrow>
            name \<in> set (map fst roster) \<and> name \<notin> set (get_visited (st c)))"
proof (cases "hub_scan (map fst roster) (get_visited (st c))")
  case (Some name)
  from hub_scan_Some [OF Some] have nm: "name \<in> set (map fst roster)"
    "name \<notin> set (get_visited (st c))" by simp_all
  from step_hub_eq [OF assms(1), of roster llm] assms(2) Some
  have c': "c' = \<lparr>at = (if name = END then EndNode else SpokeNode name),
                  st = (st c)\<lparr>nxt := Some name\<rparr>, lg = lg c @ [HubRouting name]\<rparr>"
    by simp
  show ?thesis
    using nm by (simp add: c' get_visited_def history_of_def new_messages_def)
next
  case None
  show ?thesis
  proof (cases "messages (st c)")
    case mn: None
    from step_hub_eq [OF assms(1), of roster llm] assms(2) None mn
    show ?thesis by simp
  next
    case (Some msgs)
    show ?thesis
    proof (cases "llm (lg c @ [HubSynthesizing]) (Message System orchestrator_prompt # msgs)")
      case ln: None
      from step_hub_eq [OF assms(1), of roster llm] assms(2) None Some ln
      show ?thesis by simp
    next
      case (Some response)
      from step_hub_eq [OF assms(1), of roster llm] assms(2) None \<open>messages (st c) = Some msgs\<close> Some
      have c': "c' = \<lparr>at = EndNode,
                  st = (st c)\<lparr>messages := Some (msgs @ [response]), nxt := Some END\<rparr>,
                  lg = lg c @ [HubSynthesizing,
                               LLMInvoke (Message System orchestrator_prompt # msgs)]\<rparr>"
        by simp
      show ?thesis
        using \<open>messages (st c) = Some msgs\<close>
        by (simp add: c' get_visited_def history_of_def new_messages_def)
    qed
  qed
qed

lemma step_spoke_new:
  assumes "at c = SpokeNode name" and "step roster llm c = Inr c'"
  shows "get_visited (st c') = get_visited (st c) @ [name] \<and>
         history_of (st c') = history_of (st c) @ new_messages c c' \<and>
         length (new_messages c c') = 1 \<and> at c' = HubNode"
proof -
  obtain m n v where s: "st c = \<lparr>messages = m, nxt = n, visited = v\<rparr>"
    by (cases "st c") auto
  show ?thesis using assms
    by (auto simp: s step_def make_spoke_def Let_def invoke_def
        apply_update_def add_messages_def get_visited_def
        history_of_def new_messages_def
        split: option.splits)
qed

lemma step_end_new:
  assumes "at c = EndNode" and "step roster llm c = Inr c'"
  shows "c' = c \<and> new_messages c c' = []"
  using assms by (simp add: step_def new_messages_def)

lemma step_append_only:
  assumes "step roster llm c = Inr c'"
  shows "history_of (st c') = history_of (st c) @ new_messages c c'"
proof (cases "at c")
  case HubNode
  from step_hub_new [OF HubNode assms] show ?thesis by simp
next
  case (SpokeNode name)
  from step_spoke_new [OF SpokeNode assms] show ?thesis by simp
next
  case EndNode
  from step_end_new [OF EndNode assms] show ?thesis by (simp add: new_messages_def)
qed

lemma step_worker_invariant:
  assumes inv: "worker_invariant roster ledger c" and stp: "step roster llm c = Inr c'"
  shows "worker_invariant roster (ledger @ [(at c, new_messages c c')]) c'"
proof (cases "at c")
  case HubNode
  from step_hub_new [OF HubNode stp] have
    v: "get_visited (st c') = get_visited (st c)"
    and a: "\<forall>name. at c' = SpokeNode name \<longrightarrow>
            name \<in> set (map fst roster) \<and> name \<notin> set (get_visited (st c))"
    by simp_all
  have mb: "messages_by name (ledger @ [(at c, new_messages c c')]) = messages_by name ledger"
    for name by (simp add: messages_by_append HubNode)
  from inv a show ?thesis
    unfolding worker_invariant_def mb v by simp
next
  case (SpokeNode name)
  from step_spoke_new [OF SpokeNode stp] have
    v: "get_visited (st c') = get_visited (st c) @ [name]"
    and l: "length (new_messages c c') = 1" and a: "at c' = HubNode"
    by simp_all
  from inv SpokeNode have nm: "name \<in> set (map fst roster)" "name \<notin> set (get_visited (st c))"
    unfolding worker_invariant_def by blast+
  from inv have le: "length (messages_by w ledger) \<le> 1"
    and iff: "(w \<in> set (get_visited (st c))) = (length (messages_by w ledger) = 1)" for w
    unfolding worker_invariant_def by blast+
  from nm(2) iff [of name] have "length (messages_by name ledger) \<noteq> 1" by blast
  with le [of name] have zero: "length (messages_by name ledger) = 0" by arith
  have mb: "length (messages_by w (ledger @ [(at c, new_messages c c')])) =
              (if w = name then 1 else length (messages_by w ledger))" for w
    using zero l by (simp add: messages_by_append SpokeNode)
  from inv have sub: "set (get_visited (st c)) \<subseteq> set (map fst roster)"
    by (simp add: worker_invariant_def)
  show ?thesis
    unfolding worker_invariant_def v mb a
    using sub nm le iff zero by auto
next
  case EndNode
  from step_end_new [OF EndNode stp] have e: "c' = c" by blast
  have n0: "new_messages c c = []" by (simp add: new_messages_def)
  from inv show ?thesis
    by (simp add: worker_invariant_def e n0 messages_by_append EndNode)
qed

lemma worker_invariant_init:
  "worker_invariant roster [] \<lparr>at = HubNode, st = main_input task, lg = []\<rparr>"
  by (simp add: worker_invariant_def messages_by_def get_visited_def main_input_def)

lemma steps_worker_invariant:
  "worker_invariant roster ledger c \<Longrightarrow> steps roster llm n c = Inr c' \<Longrightarrow>
   worker_invariant roster (ledger @ appended roster llm n c) c' \<and>
   history_of (st c') = history_of (st c) @ concat (map snd (appended roster llm n c))"
proof (induction n arbitrary: ledger c)
  case 0
  then show ?case by simp
next
  case (Suc n)
  from Suc.prems(2) obtain c1 where c1: "step roster llm c = Inr c1" "steps roster llm n c1 = Inr c'"
    by (auto split: sum.splits)
  from step_worker_invariant [OF Suc.prems(1) c1(1)]
  have "worker_invariant roster (ledger @ [(at c, new_messages c c1)]) c1" .
  from Suc.IH [OF this c1(2)] step_append_only [OF c1(1)] c1(1)
  show ?case by simp
qed

lemmas run_eval =
  app_invoke_def main_input_def run_step run_End step_def hub_def make_spoke_def invoke_def
  apply_update_def add_messages_def route_from_hub_def conditional_edge_def get_visited_def
  SPECIALISTS_def END_def Let_def

text \<open>
  C4. The invariant \<open>worker_invariant\<close> holds of the entry point's first configuration
  with the empty ledger. Every step that succeeds, of the hub, of a spoke or at \<open>END\<close>,
  from any configuration and ledger that satisfy it, leads to a configuration that satisfies
  it with the ledger extended by that step, and only appends to the history. Hence in every
  configuration that a run of the entry point reaches, with the ledger of the steps taken:
  \<open>visited\<close> is within the table, a name is in \<open>visited\<close> exactly when its spoke has
  appended one message, no spoke has appended more than one, and the history is the task
  followed by the messages of the ledger.
\<close>

theorem visited_tracks_contributions:
  "worker_invariant roster [] \<lparr>at = HubNode, st = main_input task, lg = []\<rparr> \<and>
   (\<forall>ledger c c'. worker_invariant roster ledger c \<and> step roster llm c = Inr c' \<longrightarrow>
      worker_invariant roster (ledger @ [(at c, new_messages c c')]) c' \<and>
      history_of (st c') = history_of (st c) @ new_messages c c') \<and>
   (\<forall>n c. steps roster llm n \<lparr>at = HubNode, st = main_input task, lg = []\<rparr> = Inr c \<longrightarrow>
      worker_invariant roster
        (appended roster llm n \<lparr>at = HubNode, st = main_input task, lg = []\<rparr>) c \<and>
      history_of (st c) =
        Message Human task #
        concat (map snd (appended roster llm n \<lparr>at = HubNode, st = main_input task, lg = []\<rparr>)))"
proof (intro conjI allI impI)
  show "worker_invariant roster [] \<lparr>at = HubNode, st = main_input task, lg = []\<rparr>"
    by (rule worker_invariant_init)
next
  fix ledger c c'
  assume "worker_invariant roster ledger c \<and> step roster llm c = Inr c'"
  then show "worker_invariant roster (ledger @ [(at c, new_messages c c')]) c'"
    using step_worker_invariant by blast
next
  fix ledger c c'
  assume "worker_invariant roster ledger c \<and> step roster llm c = Inr c'"
  then show "history_of (st c') = history_of (st c) @ new_messages c c'"
    using step_append_only by blast
next
  fix n c
  assume s: "steps roster llm n \<lparr>at = HubNode, st = main_input task, lg = []\<rparr> = Inr c"
  from steps_worker_invariant [OF worker_invariant_init s]
  show "worker_invariant roster
        (appended roster llm n \<lparr>at = HubNode, st = main_input task, lg = []\<rparr>) c"
    by simp
next
  fix n c
  assume s: "steps roster llm n \<lparr>at = HubNode, st = main_input task, lg = []\<rparr> = Inr c"
  from steps_worker_invariant [OF worker_invariant_init s]
  show "history_of (st c) =
        Message Human task #
        concat (map snd (appended roster llm n \<lparr>at = HubNode, st = main_input task, lg = []\<rparr>))"
    by (simp add: history_of_def main_input_def)
qed

theorem visited_tracks_contributions_witness:
  "\<exists>c. steps SPECIALISTS (\<lambda>tr request. Some (Message AI ''ok'')) (Suc (Suc (Suc 0)))
           \<lparr>at = HubNode, st = main_input ''q'', lg = []\<rparr> = Inr c \<and>
      at c = SpokeNode ''analyst'' \<and>
      get_visited (st c) = [''researcher''] \<and>
      appended SPECIALISTS (\<lambda>tr request. Some (Message AI ''ok'')) (Suc (Suc (Suc 0)))
           \<lparr>at = HubNode, st = main_input ''q'', lg = []\<rparr> =
        [(HubNode, []), (SpokeNode ''researcher'', [Message AI ''ok'']), (HubNode, [])] \<and>
      worker_invariant SPECIALISTS
        [(HubNode, []), (SpokeNode ''researcher'', [Message AI ''ok'']), (HubNode, [])] c \<and>
      history_of (st c) = [Message Human ''q'', Message AI ''ok''] \<and>
      (\<exists>c'. step SPECIALISTS (\<lambda>tr request. Some (Message AI ''ok'')) c = Inr c' \<and>
         new_messages c c' = [Message AI ''ok''] \<and>
         get_visited (st c') = [''researcher'', ''analyst''] \<and>
         worker_invariant SPECIALISTS
           [(HubNode, []), (SpokeNode ''researcher'', [Message AI ''ok'']), (HubNode, []),
            (SpokeNode ''analyst'', [Message AI ''ok''])] c')"
proof -
  let ?llm = "\<lambda>(tr :: event list) (request :: message list). Some (Message AI ''ok'')"
  let ?init = "\<lparr>at = HubNode, st = main_input ''q'', lg = []\<rparr>"
  let ?L = "[(HubNode, []), (SpokeNode ''researcher'', [Message AI ''ok'']), (HubNode, [])]"
  have "\<exists>c. steps SPECIALISTS ?llm (Suc (Suc (Suc 0))) ?init = Inr c \<and>
          at c = SpokeNode ''analyst'' \<and> get_visited (st c) = [''researcher''] \<and>
          (\<exists>c'. step SPECIALISTS ?llm c = Inr c' \<and> new_messages c c' = [Message AI ''ok''] \<and>
             get_visited (st c') = [''researcher'', ''analyst''])"
    by (simp add: run_eval new_messages_def history_of_def)
  then obtain c c' where
    s: "steps SPECIALISTS ?llm (Suc (Suc (Suc 0))) ?init = Inr c"
    and a: "at c = SpokeNode ''analyst''" and v: "get_visited (st c) = [''researcher'']"
    and n: "step SPECIALISTS ?llm c = Inr c'" and nm: "new_messages c c' = [Message AI ''ok'']"
    and v': "get_visited (st c') = [''researcher'', ''analyst'']" by blast
  have ap: "appended SPECIALISTS ?llm (Suc (Suc (Suc 0))) ?init = ?L"
    by (simp add: run_eval new_messages_def history_of_def)
  note t = visited_tracks_contributions [of SPECIALISTS "''q''" ?llm]
  from t [THEN conjunct2, THEN conjunct2, rule_format, OF s]
  have i: "worker_invariant SPECIALISTS ?L c"
    and h: "history_of (st c) = Message Human ''q'' # concat (map snd ?L)"
    unfolding ap by (rule conjunct1, rule conjunct2)
  from t [THEN conjunct2, THEN conjunct1, rule_format, OF conjI [OF i n], THEN conjunct1]
  have "worker_invariant SPECIALISTS (?L @ [(at c, new_messages c c')]) c'" .
  then have i': "worker_invariant SPECIALISTS
           [(HubNode, []), (SpokeNode ''researcher'', [Message AI ''ok'']), (HubNode, []),
            (SpokeNode ''analyst'', [Message AI ''ok''])] c'"
    by (simp only: a nm append.simps)
  from h have h': "history_of (st c) = [Message Human ''q'', Message AI ''ok'']" by simp
  have inner: "\<exists>c'. step SPECIALISTS ?llm c = Inr c' \<and>
         new_messages c c' = [Message AI ''ok''] \<and>
         get_visited (st c') = [''researcher'', ''analyst''] \<and>
         worker_invariant SPECIALISTS
           [(HubNode, []), (SpokeNode ''researcher'', [Message AI ''ok'']), (HubNode, []),
            (SpokeNode ''analyst'', [Message AI ''ok''])] c'"
    by (intro exI [of _ c'] conjI n nm v' i')
  show ?thesis
    by (rule exI [of _ c]) (intro conjI s a v ap i h' inner)
qed

subsection \<open>Whole runs\<close>

text \<open>
  C5. A run of the entry point that returns ends at \<open>END\<close> with every name of the table in
  \<open>visited\<close> and a history of \<open>1 + N + 1\<close> messages: the task, one answer per
  specialist, and the synthesis. The printed output is the content of the last message, and
  that message is the service's answer to the synthesis request, which is the last entry of
  the log.
\<close>

theorem run_success_state:
  assumes "roster_ok roster"
    and "app_invoke roster llm (main_input task) = Inr c"
  shows "at c = EndNode \<and>
         visited (st c) = Some (map fst roster) \<and>
         (\<exists>history. messages (st c) = Some history \<and>
            length history = 1 + length roster + 1 \<and>
            hd history = Message Human task \<and>
            final_output (st c) = Inr (content (last history)) \<and>
            (\<exists>pre. lg c = pre @ [HubSynthesizing,
                                  LLMInvoke (Message System orchestrator_prompt # butlast history)] \<and>
               llm (pre @ [HubSynthesizing])
                 (Message System orchestrator_prompt # butlast history) = Some (last history)))"
proof -
  from assms(2) have r: "run roster llm \<lparr>at = HubNode, st = main_input task, lg = []\<rparr> = Inr c"
    by (simp add: app_invoke_def)
  from run_Inr_progress [OF assms(1) progress_init r]
  obtain k where e: "at c = EndNode" and p: "progress roster llm task k c" by blast
  from p e obtain rs r pre where
    k: "k = length roster" and vis: "visited (st c) = Some (take k (map fst roster))"
    and ms: "messages (st c) = Some (Message Human task # rs @ [r])" and len: "length rs = k"
    and lg: "lg c = pre @ [HubSynthesizing,
                LLMInvoke (Message System orchestrator_prompt # Message Human task # rs)]"
    and ans: "llm (pre @ [HubSynthesizing])
                (Message System orchestrator_prompt # Message Human task # rs) = Some r"
    by (auto simp: progress_def)
  have bl: "butlast (Message Human task # rs @ [r]) = Message Human task # rs"
    by (simp add: butlast_append)
  have "messages (st c) = Some (Message Human task # rs @ [r]) \<and>
        length (Message Human task # rs @ [r]) = 1 + length roster + 1 \<and>
        hd (Message Human task # rs @ [r]) = Message Human task \<and>
        final_output (st c) = Inr (content (last (Message Human task # rs @ [r]))) \<and>
        (\<exists>pre. lg c = pre @ [HubSynthesizing,
                   LLMInvoke (Message System orchestrator_prompt #
                              butlast (Message Human task # rs @ [r]))] \<and>
               llm (pre @ [HubSynthesizing])
                 (Message System orchestrator_prompt # butlast (Message Human task # rs @ [r])) =
               Some (last (Message Human task # rs @ [r])))"
    unfolding bl using ms len k lg ans by (simp add: final_output_def)
  then have "\<exists>history. messages (st c) = Some history \<and>
            length history = 1 + length roster + 1 \<and>
            hd history = Message Human task \<and>
            final_output (st c) = Inr (content (last history)) \<and>
            (\<exists>pre. lg c = pre @ [HubSynthesizing,
                                  LLMInvoke (Message System orchestrator_prompt # butlast history)] \<and>
               llm (pre @ [HubSynthesizing])
                 (Message System orchestrator_prompt # butlast history) = Some (last history))"
    by blast
  with e vis k show ?thesis by simp
qed

theorem run_success_state_witness:
  "roster_ok SPECIALISTS \<and>
   (\<exists>c. app_invoke SPECIALISTS (\<lambda>tr request. Some (Message AI ''ok'')) (main_input ''q'') = Inr c \<and>
      at c = EndNode \<and>
      visited (st c) = Some [''researcher'', ''analyst'', ''critic'', ''writer''] \<and>
      (\<exists>history. messages (st c) = Some history \<and> length history = 6 \<and>
         hd history = Message Human ''q'' \<and>
         final_output (st c) = Inr (content (last history))))"
proof -
  have ok: "roster_ok SPECIALISTS"
    by (simp add: roster_ok_def SPECIALISTS_def END_def)
  have "\<exists>c. app_invoke SPECIALISTS (\<lambda>tr request. Some (Message AI ''ok'')) (main_input ''q'') = Inr c"
    by (simp add: run_eval)
  then obtain c where
    c: "app_invoke SPECIALISTS (\<lambda>tr request. Some (Message AI ''ok'')) (main_input ''q'') = Inr c" ..
  have names: "map fst SPECIALISTS = [''researcher'', ''analyst'', ''critic'', ''writer'']"
    by (simp add: SPECIALISTS_def)
  have len: "length SPECIALISTS = 4" by (simp add: SPECIALISTS_def)
  from run_success_state [OF ok c] show ?thesis
    unfolding names len using ok c by auto
qed

text \<open>
  C6. A run that returns has started exactly the specialists of the table, each once and in
  the order of the table, all of them before the one synthesis, which is the last thing the
  run does; it has sent the service one request per specialist and one for the synthesis.
  A spoke step that succeeds always hands control to the hub.
\<close>

theorem run_single_pass:
  assumes "roster_ok roster"
    and "app_invoke roster llm (main_input task) = Inr c"
  shows "workers_run (lg c) = map fst roster \<and>
         distinct (workers_run (lg c)) \<and>
         length (workers_run (lg c)) = length roster \<and>
         syntheses (lg c) = 1 \<and>
         length (llm_requests (lg c)) = length roster + 1 \<and>
         (\<exists>pre request. lg c = pre @ [HubSynthesizing, LLMInvoke request] \<and>
            workers_run pre = map fst roster \<and> syntheses pre = 0 \<and>
            length (llm_requests pre) = length roster) \<and>
         (\<forall>name c0 c1. at c0 = SpokeNode name \<and> step roster llm c0 = Inr c1 \<longrightarrow> at c1 = HubNode)"
proof -
  from assms(2) have r: "run roster llm \<lparr>at = HubNode, st = main_input task, lg = []\<rparr> = Inr c"
    by (simp add: app_invoke_def)
  from run_Inr_progress [OF assms(1) progress_init r]
  obtain k where e: "at c = EndNode" and p: "progress roster llm task k c" by blast
  from p e obtain rs pre where
    k: "k = length roster" and wr: "workers_run (lg c) = take k (map fst roster)"
    and lg: "lg c = pre @ [HubSynthesizing,
                LLMInvoke (Message System orchestrator_prompt # Message Human task # rs)]"
    and pre: "syntheses pre = 0" "workers_run pre = map fst roster" "length (llm_requests pre) = k"
    by (auto simp: progress_def)
  from assms(1) have d: "distinct (map fst roster)" by (simp add: roster_ok_def)
  have hubward: "\<forall>name c0 c1. at c0 = SpokeNode name \<and> step roster llm c0 = Inr c1 \<longrightarrow> at c1 = HubNode"
    using step_spoke_Inr by blast
  have ex: "\<exists>pre request. lg c = pre @ [HubSynthesizing, LLMInvoke request] \<and>
            workers_run pre = map fst roster \<and> syntheses pre = 0 \<and>
            length (llm_requests pre) = length roster"
    using lg pre k by blast
  from wr k d have "workers_run (lg c) = map fst roster" "distinct (workers_run (lg c))"
    "length (workers_run (lg c)) = length roster" by simp_all
  moreover from lg pre k have "syntheses (lg c) = 1" "length (llm_requests (lg c)) = length roster + 1"
    by simp_all
  ultimately show ?thesis using ex hubward by blast
qed

theorem run_single_pass_witness:
  "roster_ok SPECIALISTS \<and>
   (\<exists>c. app_invoke SPECIALISTS (\<lambda>tr request. Some (Message AI ''ok'')) (main_input ''q'') = Inr c \<and>
      workers_run (lg c) = [''researcher'', ''analyst'', ''critic'', ''writer''] \<and>
      distinct (workers_run (lg c)) \<and>
      syntheses (lg c) = 1 \<and>
      length (llm_requests (lg c)) = 5)"
proof -
  have ok: "roster_ok SPECIALISTS"
    by (simp add: roster_ok_def SPECIALISTS_def END_def)
  have "\<exists>c. app_invoke SPECIALISTS (\<lambda>tr request. Some (Message AI ''ok'')) (main_input ''q'') = Inr c"
    by (simp add: run_eval)
  then obtain c where
    c: "app_invoke SPECIALISTS (\<lambda>tr request. Some (Message AI ''ok'')) (main_input ''q'') = Inr c" ..
  have names: "map fst SPECIALISTS = [''researcher'', ''analyst'', ''critic'', ''writer'']"
    by (simp add: SPECIALISTS_def)
  have len: "length SPECIALISTS = 4" by (simp add: SPECIALISTS_def)
  from run_single_pass [OF ok c] have
    "workers_run (lg c) = [''researcher'', ''analyst'', ''critic'', ''writer'']"
    "distinct (workers_run (lg c))" "syntheses (lg c) = 1" "length (llm_requests (lg c)) = 5"
    unfolding names len by simp_all
  with ok c show ?thesis by blast
qed

text \<open>
  C3. When the service fails on the request of the \<open>k\<close>-th spoke: let a run of the entry
  point have reached, without failure, a configuration \<open>c\<close> in which the spoke \<open>name\<close>
  is about to run as the \<open>k\<close>-th one, and let the service refuse the request that this
  spoke sends, its system prompt in front of the history. Then the run fails with
  \<open>GenerationFailure\<close> in the state of \<open>c\<close>, unchanged; \<open>k\<close> is between 1 and
  \<open>N\<close> and the spoke is the \<open>k\<close>-th of the table; the history holds \<open>1 + (k - 1)\<close>
  messages, the first of which is the task; \<open>visited\<close> holds the first \<open>k - 1\<close>
  names; and the log holds no synthesis.
\<close>

theorem worker_failure_aborts:
  assumes "roster_ok roster"
    and "steps roster llm n \<lparr>at = HubNode, st = main_input task, lg = []\<rparr> = Inr c"
    and "at c = SpokeNode name"
    and "length (workers_run (lg c)) + 1 = k"
    and "map_of roster name = Some system_prompt"
    and "messages (st c) = Some history"
    and "llm (lg c @ [SpokeWorking name]) (Message System system_prompt # history) = None"
  shows "app_invoke roster llm (main_input task) =
           Inl (GenerationFailure,
                c\<lparr>lg := lg c @ [SpokeWorking name,
                                 LLMInvoke (Message System system_prompt # history)]\<rparr>) \<and>
         1 \<le> k \<and> k \<le> length roster \<and>
         name = map fst roster ! (k - 1) \<and>
         length history = 1 + (k - 1) \<and>
         hd history = Message Human task \<and>
         visited (st c) = Some (take (k - 1) (map fst roster)) \<and>
         length (get_visited (st c)) = k - 1 \<and>
         syntheses (lg c @ [SpokeWorking name,
                            LLMInvoke (Message System system_prompt # history)]) = 0 \<and>
         workers_run (lg c @ [SpokeWorking name,
                              LLMInvoke (Message System system_prompt # history)]) =
           take k (map fst roster)"
proof -
  let ?cf = "c\<lparr>lg := lg c @ [SpokeWorking name,
                               LLMInvoke (Message System system_prompt # history)]\<rparr>"
  from steps_progress [OF assms(1) progress_init assms(2)]
  obtain j where p: "progress roster llm task j c" ..
  from p assms(3,6) obtain rs where
    jl: "j < length roster" and vis: "visited (st c) = Some (take j (map fst roster))"
    and wr: "workers_run (lg c) = take j (map fst roster)"
    and ms: "history = Message Human task # rs" and len: "length rs = j"
    and syn: "syntheses (lg c) = 0" and nm: "name = map fst roster ! j"
    by (auto simp: progress_def)
  from wr jl assms(4) have k: "k = Suc j" by simp
  have stp: "step roster llm c = Inl (GenerationFailure, ?cf)"
    using assms(3,5,6,7) by (simp add: step_def make_spoke_def Let_def invoke_def)
  from assms(3) have "at c \<noteq> EndNode" by simp
  then have "run roster llm c = Inl (GenerationFailure, ?cf)"
    using stp by (simp add: run_step)
  with run_steps [OF assms(2)]
  have r: "app_invoke roster llm (main_input task) = Inl (GenerationFailure, ?cf)"
    by (simp add: app_invoke_def)
  from jl nm have tk: "take (Suc j) (map fst roster) = take j (map fst roster) @ [name]"
    by (simp add: take_Suc_conv_app_nth)
  from vis jl have lv: "length (get_visited (st c)) = j" by (simp add: get_visited_def)
  show ?thesis
    using r k jl nm ms len vis lv syn wr tk by simp
qed

theorem worker_failure_aborts_witness:
  "roster_ok SPECIALISTS \<and>
   (\<exists>c system_prompt history.
      steps SPECIALISTS (\<lambda>tr request. if length tr < 4 then Some (Message AI ''ok'') else None)
        (Suc (Suc (Suc 0))) \<lparr>at = HubNode, st = main_input ''q'', lg = []\<rparr> = Inr c \<and>
      at c = SpokeNode ''analyst'' \<and>
      length (workers_run (lg c)) + 1 = 2 \<and>
      map_of SPECIALISTS ''analyst'' = Some system_prompt \<and>
      messages (st c) = Some history \<and>
      (if length (lg c @ [SpokeWorking ''analyst'']) < 4 then Some (Message AI ''ok'') else None) = None \<and>
      app_invoke SPECIALISTS
        (\<lambda>tr request. if length tr < 4 then Some (Message AI ''ok'') else None)
        (main_input ''q'') =
        Inl (GenerationFailure,
             c\<lparr>lg := lg c @ [SpokeWorking ''analyst'',
                              LLMInvoke (Message System system_prompt # history)]\<rparr>) \<and>
      length history = 2 \<and>
      history = [Message Human ''q'', Message AI ''ok''] \<and>
      visited (st c) = Some [''researcher''] \<and>
      length (get_visited (st c)) = 1 \<and>
      syntheses (lg c @ [SpokeWorking ''analyst'',
                         LLMInvoke (Message System system_prompt # history)]) = 0)"
proof -
  let ?llm = "\<lambda>(tr :: event list) (request :: message list).
                if length tr < 4 then Some (Message AI ''ok'') else None"
  have ok: "roster_ok SPECIALISTS"
    by (simp add: roster_ok_def SPECIALISTS_def END_def)
  have "\<exists>c system_prompt history.
          steps SPECIALISTS ?llm (Suc (Suc (Suc 0)))
            \<lparr>at = HubNode, st = main_input ''q'', lg = []\<rparr> = Inr c \<and>
          at c = SpokeNode ''analyst'' \<and> length (workers_run (lg c)) + 1 = 2 \<and>
          map_of SPECIALISTS ''analyst'' = Some system_prompt \<and>
          messages (st c) = Some history \<and>
          history = [Message Human ''q'', Message AI ''ok''] \<and>
          ?llm (lg c @ [SpokeWorking ''analyst'']) (Message System system_prompt # history) = None"
    by (simp add: run_eval)
  then obtain c system_prompt history where
    s: "steps SPECIALISTS ?llm (Suc (Suc (Suc 0)))
          \<lparr>at = HubNode, st = main_input ''q'', lg = []\<rparr> = Inr c"
    and a: "at c = SpokeNode ''analyst''" and l: "length (workers_run (lg c)) + 1 = 2"
    and p: "map_of SPECIALISTS ''analyst'' = Some system_prompt"
    and m: "messages (st c) = Some history"
    and h: "history = [Message Human ''q'', Message AI ''ok'']"
    and f: "?llm (lg c @ [SpokeWorking ''analyst'']) (Message System system_prompt # history) = None"
    by blast
  have names: "map fst SPECIALISTS = [''researcher'', ''analyst'', ''critic'', ''writer'']"
    by (simp add: SPECIALISTS_def)
  from worker_failure_aborts [OF ok s a l p m f] have
    "app_invoke SPECIALISTS ?llm (main_input ''q'') =
        Inl (GenerationFailure,
             c\<lparr>lg := lg c @ [SpokeWorking ''analyst'',
                              LLMInvoke (Message System system_prompt # history)]\<rparr>)"
    "length history = 2"
    "visited (st c) = Some [''researcher'']" "length (get_visited (st c)) = 1"
    "syntheses (lg c @ [SpokeWorking ''analyst'',
                         LLMInvoke (Message System system_prompt # history)]) = 0"
    unfolding names by simp_all
  with ok s a l p m h f show ?thesis by blast
qed

text \<open>
  C2. With an empty table no configuration error is raised. The hub finalizes at once: the run
  sends the service one request, the synthesis prompt in front of the task, and returns the
  answer as the second and last message of the history, or fails with the service's
  failure.
\<close>

theorem empty_roster_finalizes:
  "app_invoke [] llm (main_input task) =
     (case llm [HubSynthesizing] [Message System orchestrator_prompt, Message Human task] of
        None \<Rightarrow>
          Inl (GenerationFailure,
               \<lparr>at = HubNode, st = main_input task,
                lg = [HubSynthesizing,
                      LLMInvoke [Message System orchestrator_prompt, Message Human task]]\<rparr>)
      | Some response \<Rightarrow>
          Inr \<lparr>at = EndNode,
               st = \<lparr>messages = Some [Message Human task, response], nxt = Some END,
                     visited = Some []\<rparr>,
               lg = [HubSynthesizing,
                     LLMInvoke [Message System orchestrator_prompt, Message Human task]]\<rparr>)"
proof (cases "llm [HubSynthesizing] [Message System orchestrator_prompt, Message Human task]")
  case None
  then have "step [] llm \<lparr>at = HubNode, st = main_input task, lg = []\<rparr> =
      Inl (GenerationFailure,
           \<lparr>at = HubNode, st = main_input task,
            lg = [HubSynthesizing,
                  LLMInvoke [Message System orchestrator_prompt, Message Human task]]\<rparr>)"
    by (simp add: step_def hub_def get_visited_def main_input_def invoke_def)
  with None show ?thesis by (simp add: app_invoke_def run_step)
next
  case (Some response)
  then have "step [] llm \<lparr>at = HubNode, st = main_input task, lg = []\<rparr> =
      Inr \<lparr>at = EndNode,
           st = \<lparr>messages = Some [Message Human task, response], nxt = Some END,
                 visited = Some []\<rparr>,
           lg = [HubSynthesizing,
                 LLMInvoke [Message System orchestrator_prompt, Message Human task]]\<rparr>"
    by (simp add: step_def hub_def get_visited_def main_input_def invoke_def apply_update_def
        add_messages_def route_from_hub_def conditional_edge_def)
  with Some show ?thesis by (simp add: app_invoke_def run_step run_End)
qed

text \<open>
  The run of the empty table with a service that always answers returns a synthesis, and a
  request was sent to the service.
\<close>

theorem empty_roster_counterexample:
  "app_invoke [] (\<lambda>tr request. Some (Message AI ''nothing to synthesize'')) (main_input ''q'') =
     Inr \<lparr>at = EndNode,
          st = \<lparr>messages = Some [Message Human ''q'', Message AI ''nothing to synthesize''],
                nxt = Some END, visited = Some []\<rparr>,
          lg = [HubSynthesizing,
                LLMInvoke [Message System orchestrator_prompt, Message Human ''q'']]\<rparr>"
proof -
  have "step [] (\<lambda>tr request. Some (Message AI ''nothing to synthesize''))
          \<lparr>at = HubNode, st = main_input ''q'', lg = []\<rparr> =
      Inr \<lparr>at = EndNode,
           st = \<lparr>messages = Some [Message Human ''q'', Message AI ''nothing to synthesize''],
                 nxt = Some END, visited = Some []\<rparr>,
           lg = [HubSynthesizing,
                 LLMInvoke [Message System orchestrator_prompt, Message Human ''q'']]\<rparr>"
    by (simp add: step_def hub_def get_visited_def main_input_def invoke_def apply_update_def
        add_messages_def route_from_hub_def conditional_edge_def)
  then show ?thesis by (simp add: app_invoke_def run_step run_End)
qed

end
